theory Spec2Isabelle
  imports Main "HOL-Library.Char_ord" "HOL-Library.List_Lexorder" "HOL-Library.Multiset"
begin

section \<open>Values held by a table cell\<close>

text \<open>
  A cell of the product table holds a Python object. The model keeps the kinds of
  object that \<^verbatim>\<open>is_empty\<close> and \<^verbatim>\<open>get_description\<close> tell apart: the null
  \<^verbatim>\<open>None\<close>, the float \<^verbatim>\<open>NaN\<close>, booleans, integers, strings, and the two
  one-dimensional sequences, a Python \<^verbatim>\<open>list\<close> and a NumPy \<^verbatim>\<open>ndarray\<close>,
  whose elements are scalars. A character is a code point below 256.
\<close>

datatype atom = ANone | ANaN | ABool bool | AInt int | AStr string

datatype pyval = Atom atom | PList "atom list" | PArray "atom list"

datatype error = KeyError | TypeError | ValueError

text \<open>A row (a pandas Series) maps a column name to its cell.\<close>

type_synonym series = "string \<Rightarrow> pyval"

section \<open>Strings\<close>

text \<open>\<^verbatim>\<open>str.isspace\<close> on the code points below 256.\<close>

definition is_space :: "char \<Rightarrow> bool" where
  "is_space c = (of_char c \<in> {9, 10, 11, 12, 13, 28, 29, 30, 31, 32, 133, 160 :: nat})"

text \<open>\<^verbatim>\<open>str.lower\<close> on one code point below 256: A-Z, and the accented capitals
  192-222 other than the multiplication sign 215, move up by 32.\<close>

definition lower_char :: "char \<Rightarrow> char" where
  "lower_char c =
     (let n = (of_char c :: nat)
      in if (65 \<le> n \<and> n \<le> 90) \<or> (192 \<le> n \<and> n \<le> 222 \<and> n \<noteq> 215)
         then char_of (n + 32) else c)"

definition lower :: "string \<Rightarrow> string" where
  "lower s = map lower_char s"

text \<open>\<^verbatim>\<open>str.strip()\<close>: whitespace removed at both ends.\<close>

definition strip :: "string \<Rightarrow> string" where
  "strip s = rev (dropWhile is_space (rev (dropWhile is_space s)))"

text \<open>\<^verbatim>\<open>str.split()\<close> without argument: the maximal runs of non-whitespace.\<close>

function split :: "string \<Rightarrow> string list" where
  "split s =
     (let t = dropWhile is_space s
      in if t = [] then []
         else takeWhile (\<lambda>c. \<not> is_space c) t # split (dropWhile (\<lambda>c. \<not> is_space c) t))"
  by pat_completeness auto
termination
proof (relation "measure length")
  show "wf (measure length)" by simp
next
  fix s t :: string
  assume t: "t = dropWhile is_space s" and ne: "t \<noteq> []"
  have "\<not> is_space (hd t)"
    using t ne hd_dropWhile by metis
  then have "length (dropWhile (\<lambda>c. \<not> is_space c) t) < length t"
    using ne by (cases t) (auto intro: le_imp_less_Suc length_dropWhile_le)
  also have "length t \<le> length s"
    using t by (simp add: length_dropWhile_le)
  finally show "(dropWhile (\<lambda>c. \<not> is_space c) t, s) \<in> measure length"
    by simp
qed

declare split.simps [simp del]

text \<open>\<^verbatim>\<open>sep.join(words)\<close>.\<close>

fun join :: "string \<Rightarrow> string list \<Rightarrow> string" where
  "join sep [] = []"
| "join sep [w] = w"
| "join sep (w # v # ws) = w @ sep @ join sep (v # ws)"

section \<open>Key Deriver\<close>

text \<open>
  Truth value of a cell, as \<^verbatim>\<open>value and ...\<close> takes it. A NumPy array of more than
  one element has no truth value and raises ValueError; an array of one element has the
  truth value of that element; an empty array is falsy.
\<close>

fun atom_truthy :: "atom \<Rightarrow> bool" where
  "atom_truthy ANone = False"
| "atom_truthy ANaN = True"
| "atom_truthy (ABool b) = b"
| "atom_truthy (AInt n) = (n \<noteq> 0)"
| "atom_truthy (AStr s) = (s \<noteq> [])"

fun truthy :: "pyval \<Rightarrow> error + bool" where
  "truthy (Atom a) = Inr (atom_truthy a)"
| "truthy (PList xs) = Inr (xs \<noteq> [])"
| "truthy (PArray []) = Inr False"
| "truthy (PArray [a]) = Inr (atom_truthy a)"
| "truthy (PArray (a # b # xs)) = Inl ValueError"

definition candidate_fields :: "string list" where
  "candidate_fields = [''product_summary'', ''description'', ''product_title'', ''product_name'']"

text \<open>
  The loop of \<^verbatim>\<open>get_description\<close> over the candidate fields still to try;
  \<open>cols\<close> is the index of the row, that is the columns of the table.
\<close>

fun get_description_from :: "string list \<Rightarrow> string list \<Rightarrow> series \<Rightarrow> error + string" where
  "get_description_from [] cols row = Inr []"
| "get_description_from (field # fields) cols row =
     (if field \<in> set cols then
        (case truthy (row field) of
           Inl e \<Rightarrow> Inl e
         | Inr t \<Rightarrow>
            (case row field of
               Atom (AStr s) \<Rightarrow>
                 if t \<and> 3 \<le> length (strip s) then Inr (strip s)
                 else get_description_from fields cols row
             | _ \<Rightarrow> get_description_from fields cols row))
      else get_description_from fields cols row)"

definition get_description :: "string list \<Rightarrow> series \<Rightarrow> error + string" where
  "get_description cols row = get_description_from candidate_fields cols row"

definition normalize :: "string \<Rightarrow> string" where
  "normalize text = (if text = [] then [] else join '' '' (split (strip (lower text))))"

text \<open>
  \<^verbatim>\<open>.str[:20]\<close> on one cell: a string is sliced, any other object gives NaN.
  \<^verbatim>\<open>.fillna(v)\<close> on one cell: a null cell becomes \<open>v\<close>, any other cell is kept.
\<close>

fun str_slice :: "nat \<Rightarrow> pyval \<Rightarrow> pyval" where
  "str_slice n (Atom (AStr s)) = Atom (AStr (take n s))"
| "str_slice n v = Atom ANaN"

fun atom_isnull :: "atom \<Rightarrow> bool" where
  "atom_isnull ANone = True"
| "atom_isnull ANaN = True"
| "atom_isnull a = False"

fun isnull :: "pyval \<Rightarrow> bool" where
  "isnull (Atom a) = atom_isnull a"
| "isnull v = False"

definition fillna :: "pyval \<Rightarrow> pyval \<Rightarrow> pyval" where
  "fillna v cell = (if isnull cell then v else cell)"

definition desc_prefix :: "pyval \<Rightarrow> pyval" where
  "desc_prefix normalized_desc = fillna (Atom (AStr ''NO_DESC'')) (str_slice 20 normalized_desc)"

text \<open>
  \<^verbatim>\<open>+\<close> between two cells of object columns holding strings: two strings are
  concatenated, a null operand gives NaN, any other operand raises TypeError.
\<close>

fun str_add :: "pyval \<Rightarrow> pyval \<Rightarrow> error + pyval" where
  "str_add (Atom (AStr a)) (Atom (AStr b)) = Inr (Atom (AStr (a @ b)))"
| "str_add a b = (if isnull a \<or> isnull b then Inr (Atom ANaN) else Inl TypeError)"

definition dedup_key :: "pyval \<Rightarrow> pyval \<Rightarrow> error + pyval" where
  "dedup_key page_url prefix =
     (case str_add page_url (Atom (AStr ''|||'')) of
        Inl e \<Rightarrow> Inl e
      | Inr u \<Rightarrow> str_add u prefix)"

text \<open>The key of one record: the three steps above on the record's own cells.\<close>

definition record_key :: "string list \<Rightarrow> series \<Rightarrow> error + pyval" where
  "record_key cols row =
     (case get_description cols row of
        Inl e \<Rightarrow> Inl e
      | Inr d \<Rightarrow>
         if ''page_url'' \<in> set cols
         then dedup_key (row ''page_url'') (desc_prefix (Atom (AStr (normalize d))))
         else Inl KeyError)"

section \<open>Emptiness of a cell\<close>

text \<open>
  \<^verbatim>\<open>pd.isna\<close> answers with one boolean on a scalar and with an array of booleans,
  one for each element, on a list or an array. \<^verbatim>\<open>if pd.isna(value)\<close> then takes
  the truth value of the answer: that of the single boolean of a one-element array, and
  ValueError on an array of two or more booleans.
\<close>

datatype isna_result = IsnaScalar bool | IsnaArray "bool list"

fun pd_isna :: "pyval \<Rightarrow> isna_result" where
  "pd_isna (Atom a) = IsnaScalar (atom_isnull a)"
| "pd_isna (PList xs) = IsnaArray (map atom_isnull xs)"
| "pd_isna (PArray xs) = IsnaArray (map atom_isnull xs)"

fun isna_truthy :: "isna_result \<Rightarrow> error + bool" where
  "isna_truthy (IsnaScalar b) = Inr b"
| "isna_truthy (IsnaArray []) = Inr False"
| "isna_truthy (IsnaArray [b]) = Inr b"
| "isna_truthy (IsnaArray (a # b # bs)) = Inl ValueError"

text \<open>The bare \<^verbatim>\<open>except: pass\<close> swallows the ValueError and falls to
  \<^verbatim>\<open>return False\<close>.\<close>

definition is_empty :: "pyval \<Rightarrow> bool" where
  "is_empty v =
     (if v = Atom ANone then True
      else if (case v of Atom (AStr s) \<Rightarrow> strip s = [] | _ \<Rightarrow> False) then True
      else if (case v of PList xs \<Rightarrow> length xs = 0 | _ \<Rightarrow> False) then True
      else if (case v of PArray xs \<Rightarrow> length xs = 0 | _ \<Rightarrow> False) then True
      else (case isna_truthy (pd_isna v) of Inl e \<Rightarrow> False | Inr b \<Rightarrow> b))"

section \<open>Group Merger\<close>

definition temp_cols :: "string list" where
  "temp_cols = [''description'', ''normalized_desc'', ''desc_prefix'', ''dedup_key'']"

text \<open>The \<^verbatim>\<open>count\<close> of the first loop of \<^verbatim>\<open>merge_group\<close> for one row.\<close>

definition count_nonempty :: "string list \<Rightarrow> series \<Rightarrow> nat" where
  "count_nonempty cols row =
     length (filter (\<lambda>col. col \<notin> set temp_cols \<and> \<not> is_empty (row col)) cols)"

text \<open>A group is the list of its rows in table order, each with its index label.\<close>

type_synonym group = "(nat \<times> series) list"

definition best_step :: "string list \<Rightarrow> nat \<times> series \<Rightarrow> nat option \<times> int \<Rightarrow> nat option \<times> int" where
  "best_step cols ir best =
     (let count = int (count_nonempty cols (snd ir))
      in if count > snd best then (Some (fst ir), count) else best)"

definition find_best :: "string list \<Rightarrow> group \<Rightarrow> nat option \<times> int" where
  "find_best cols g = fold (best_step cols) g (None, - 1)"

definition fill_col :: "series \<Rightarrow> string \<Rightarrow> series \<Rightarrow> series" where
  "fill_col other col merged =
     (if col \<in> set temp_cols then merged
      else if is_empty (merged col) \<and> \<not> is_empty (other col) then merged(col := other col)
      else merged)"

definition fill_from :: "string list \<Rightarrow> series \<Rightarrow> series \<Rightarrow> series" where
  "fill_from cols other merged = fold (fill_col other) cols merged"

definition fill_step :: "string list \<Rightarrow> nat \<Rightarrow> nat \<times> series \<Rightarrow> series \<Rightarrow> series" where
  "fill_step cols best_idx ir merged =
     (if fst ir = best_idx then merged else fill_from cols (snd ir) merged)"

text \<open>\<^verbatim>\<open>group.loc[best_idx]\<close> finds a row by label, and raises KeyError when there
  is none (the label \<^verbatim>\<open>None\<close> of an empty group).\<close>

definition merge_group :: "string list \<Rightarrow> group \<Rightarrow> error + series" where
  "merge_group cols g =
     (if length g = 1 then Inr (snd (hd g))
      else
        (case fst (find_best cols g) of
           None \<Rightarrow> Inl KeyError
         | Some best_idx \<Rightarrow>
            (case map_of g best_idx of
               None \<Rightarrow> Inl KeyError
             | Some base \<Rightarrow> Inr (fold (fill_step cols best_idx) g base))))"

section \<open>The whole transform\<close>

record frame =
  columns :: "string list"
  rows :: "(nat \<times> series) list"

text \<open>\<^verbatim>\<open>df[col] = values\<close>: an existing column is overwritten in place, a new one is
  appended.\<close>

definition set_column :: "string \<Rightarrow> pyval list \<Rightarrow> frame \<Rightarrow> frame" where
  "set_column col vals df =
     \<lparr>columns = (if col \<in> set (columns df) then columns df else columns df @ [col]),
      rows = map (\<lambda>(ir, v). (fst ir, (snd ir)(col := v))) (zip (rows df) vals)\<rparr>"

text \<open>The first exception raised while a list is built ends the run.\<close>

fun sequence :: "(error + 'a) list \<Rightarrow> error + 'a list" where
  "sequence [] = Inr []"
| "sequence (x # xs) =
     (case x of
        Inl e \<Rightarrow> Inl e
      | Inr v \<Rightarrow> (case sequence xs of Inl e \<Rightarrow> Inl e | Inr vs \<Rightarrow> Inr (v # vs)))"

text \<open>
  \<^verbatim>\<open>df.groupby('dedup_key')\<close>: one group for each distinct key, the groups in
  ascending order of key, the rows of a group in table order; a row whose key is null
  belongs to no group. The key column holds strings and NaN only.
\<close>

fun key_string :: "pyval \<Rightarrow> string list" where
  "key_string (Atom (AStr k)) = [k]"
| "key_string v = []"

definition group_keys :: "(nat \<times> series) list \<Rightarrow> string list" where
  "group_keys rs = sort (remdups (concat (map (\<lambda>ir. key_string (snd ir ''dedup_key'')) rs)))"

definition groupby :: "(nat \<times> series) list \<Rightarrow> (string \<times> group) list" where
  "groupby rs =
     map (\<lambda>k. (k, filter (\<lambda>ir. snd ir ''dedup_key'' = Atom (AStr k)) rs)) (group_keys rs)"

text \<open>
  The script from the extraction of the descriptions to \<^verbatim>\<open>reset_index\<close>. A table
  built from no row at all has no column, so dropping the derived columns from it raises
  KeyError.
\<close>

definition dedup :: "frame \<Rightarrow> error + frame" where
  "dedup df =
     (case sequence (map (\<lambda>ir. get_description (columns df) (snd ir)) (rows df)) of
        Inl e \<Rightarrow> Inl e
      | Inr descriptions \<Rightarrow>
         (let df1 = set_column ''description'' (map (\<lambda>d. Atom (AStr d)) descriptions) df;
              df2 = set_column ''normalized_desc''
                      (map (\<lambda>d. Atom (AStr (normalize d))) descriptions) df1;
              df3 = set_column ''desc_prefix''
                      (map (\<lambda>ir. desc_prefix (snd ir ''normalized_desc'')) (rows df2)) df2
          in if ''page_url'' \<notin> set (columns df3) then Inl KeyError
             else
               (case sequence (map (\<lambda>ir. dedup_key (snd ir ''page_url'') (snd ir ''desc_prefix''))
                                 (rows df3)) of
                  Inl e \<Rightarrow> Inl e
                | Inr keys \<Rightarrow>
                   (let df4 = set_column ''dedup_key'' keys df3
                    in case sequence (map (\<lambda>kg. merge_group (columns df4) (snd kg))
                                        (groupby (rows df4))) of
                         Inl e \<Rightarrow> Inl e
                       | Inr deduplicated \<Rightarrow>
                          if deduplicated = [] then Inl KeyError
                          else Inr \<lparr>columns = filter (\<lambda>c. c \<notin> set temp_cols) (columns df4),
                                    rows = enumerate 0 deduplicated\<rparr>))))"

text \<open>The records of a table as data: each row read at the table's columns.\<close>

definition records_of :: "frame \<Rightarrow> (string \<times> pyval) list list" where
  "records_of df = map (\<lambda>ir. map (\<lambda>c. (c, snd ir c)) (columns df)) (rows df)"

text \<open>The transform with its output read as records, and the transform run on its own
  output.\<close>

definition dedup_records :: "frame \<Rightarrow> error + (string \<times> pyval) list list" where
  "dedup_records df = (case dedup df of Inl e \<Rightarrow> Inl e | Inr out \<Rightarrow> Inr (records_of out))"

definition dedup_twice_records :: "frame \<Rightarrow> error + (string \<times> pyval) list list" where
  "dedup_twice_records df = (case dedup df of Inl e \<Rightarrow> Inl e | Inr out \<Rightarrow> dedup_records out)"

section \<open>Concrete records\<close>

text \<open>A row given by its cells; a column that is not listed holds \<^verbatim>\<open>None\<close>.\<close>

definition row_of :: "(string \<times> pyval) list \<Rightarrow> series" where
  "row_of cells col = (case map_of cells col of Some v \<Rightarrow> v | None \<Rightarrow> Atom ANone)"

definition str :: "string \<Rightarrow> pyval" where
  "str s = Atom (AStr s)"

text \<open>Record B of the second scenario: a URL, an empty description, an empty brand.\<close>

definition scenario2_cols :: "string list" where
  "scenario2_cols = [''page_url'', ''description'', ''brand'']"

definition scenario2_B :: series where
  "scenario2_B = row_of [(''page_url'', str ''http://a.com/p1''), (''description'', str []),
                         (''brand'', str [])]"

text \<open>A table of one record that has a description column of its own.\<close>

definition described_table :: frame where
  "described_table =
     \<lparr>columns = [''page_url'', ''description''],
      rows = [(0, row_of [(''page_url'', str ''http://a.com/p1''),
                          (''description'', str ''A fine blue widget'')])]\<rparr>"

section \<open>Notions used to state the properties\<close>

text \<open>Words as \<^verbatim>\<open>split\<close> produces them: not empty, and free of whitespace.\<close>

definition words_ok :: "string list \<Rightarrow> bool" where
  "words_ok ws = (\<forall>w\<in>set ws. w \<noteq> [] \<and> (\<forall>c\<in>set w. \<not> is_space c))"

text \<open>A cell qualifies as a description when it is a string of trimmed length at least 3.\<close>

fun qualifies :: "pyval \<Rightarrow> bool" where
  "qualifies (Atom (AStr s)) = (3 \<le> length (strip s))"
| "qualifies v = False"

fun str_of :: "pyval \<Rightarrow> string" where
  "str_of (Atom (AStr s)) = s"
| "str_of v = []"

text \<open>The first candidate field, in priority order, that the record has and whose cell
  qualifies.\<close>

definition first_qualifying :: "string list \<Rightarrow> series \<Rightarrow> string option" where
  "first_qualifying cols row = find (\<lambda>f. f \<in> set cols \<and> qualifies (row f)) candidate_fields"

text \<open>Description extraction in the words of the specification: the value of the first
  qualifying candidate, as it is, and the empty string when there is none.\<close>

definition spec_description :: "string list \<Rightarrow> series \<Rightarrow> string" where
  "spec_description cols row =
     (case first_qualifying cols row of None \<Rightarrow> [] | Some f \<Rightarrow> str_of (row f))"

text \<open>A cell has a truth value unless it is an array of two or more elements.\<close>

definition has_truth :: "pyval \<Rightarrow> bool" where
  "has_truth v = (\<not> isl (truthy v))"

text \<open>The 20-character prefix of the normalized description of a record.\<close>

definition record_prefix :: "string list \<Rightarrow> series \<Rightarrow> error + string" where
  "record_prefix cols row =
     (case get_description cols row of Inl e \<Rightarrow> Inl e | Inr d \<Rightarrow> Inr (take 20 (normalize d)))"

section \<open>Example records\<close>

definition titled_cols :: "string list" where
  "titled_cols = [''page_url'', ''product_summary'', ''product_title'']"

text \<open>A record whose summary is too short and whose title carries whitespace around it.\<close>

definition titled_record :: series where
  "titled_record = row_of [(''page_url'', str ''http://a.com/p1''), (''product_summary'', str ''ab''),
                           (''product_title'', str ''  Blue   Widget '')]"

text \<open>Two records with different URLs whose keys coincide, and one whose URL is null.\<close>

definition short_url_record :: series where
  "short_url_record = row_of [(''page_url'', str ''a''), (''product_summary'', str ''|||bcd'')]"

definition long_url_record :: series where
  "long_url_record = row_of [(''page_url'', str ''a|||''), (''product_summary'', str ''bcd'')]"

definition null_url_record :: series where
  "null_url_record = row_of [(''page_url'', Atom ANone), (''product_summary'', str ''bcd'')]"

definition summary_cols :: "string list" where
  "summary_cols = [''page_url'', ''product_summary'']"

text \<open>The first scenario: the same URL, and titles that differ in case and spacing only.\<close>

definition retitled_record :: series where
  "retitled_record = row_of [(''page_url'', str ''http://a.com/p1''),
                             (''product_title'', str ''blue widget'')]"

section \<open>The merge in the words of the specification\<close>

text \<open>The position of the first number of a list that reaches the maximum of the list.\<close>

definition first_max :: "nat list \<Rightarrow> nat" where
  "first_max ns = length (takeWhile (\<lambda>n. n < Max (set ns)) ns)"

text \<open>The original fields of a group: its columns other than the derived ones.\<close>

definition original_fields :: "string list \<Rightarrow> string list" where
  "original_fields cols = filter (\<lambda>col. col \<notin> set temp_cols) cols"

text \<open>The base is the first record, in group order, whose count of non-empty original
  fields is the highest of the group.\<close>

definition spec_base_pos :: "string list \<Rightarrow> series list \<Rightarrow> nat" where
  "spec_base_pos cols rs = first_max (map (count_nonempty cols) rs)"

text \<open>One field of one other record: its value is copied when the working copy's value is
  empty and the other record's value is not.\<close>

definition spec_fill_field :: "series \<Rightarrow> string \<Rightarrow> series \<Rightarrow> series" where
  "spec_fill_field other col merged =
     (if is_empty (merged col) \<and> \<not> is_empty (other col) then merged(col := other col)
      else merged)"

definition spec_fill_record :: "string list \<Rightarrow> series \<Rightarrow> series \<Rightarrow> series" where
  "spec_fill_record cols other merged = fold (spec_fill_field other) (original_fields cols) merged"

text \<open>The merged record: the base, filled from every other record in group order.\<close>

definition spec_merge :: "string list \<Rightarrow> series list \<Rightarrow> series" where
  "spec_merge cols rs =
     (let b = spec_base_pos cols rs
      in fold (spec_fill_record cols) (take b rs @ drop (Suc b) rs) (rs ! b))"

text \<open>The cells of a merged record, read at the given columns.\<close>

definition merged_cells :: "string list \<Rightarrow> group \<Rightarrow> error + pyval list" where
  "merged_cells cols g = (case merge_group cols g of Inl e \<Rightarrow> Inl e | Inr m \<Rightarrow> Inr (map m cols))"

definition merged_count :: "string list \<Rightarrow> group \<Rightarrow> error + nat" where
  "merged_count cols g =
     (case merge_group cols g of Inl e \<Rightarrow> Inl e | Inr m \<Rightarrow> Inr (count_nonempty cols m))"

text \<open>A group of three records of one page. The first and the third have three non-empty
  original fields each, the second has two.\<close>

definition widget_cols :: "string list" where
  "widget_cols = [''page_url'', ''brand'', ''color'', ''size'', ''weight'', ''description'',
                  ''normalized_desc'', ''desc_prefix'', ''dedup_key'']"

definition widget_row :: "string \<Rightarrow> string \<Rightarrow> string \<Rightarrow> string \<Rightarrow> series" where
  "widget_row b c s w =
     row_of [(''page_url'', str ''http://a.com/p1''), (''brand'', str b), (''color'', str c),
             (''size'', str s), (''weight'', str w), (''description'', str []),
             (''normalized_desc'', str []), (''desc_prefix'', str []),
             (''dedup_key'', str ''http://a.com/p1|||'')]"

definition widget_group :: group where
  "widget_group = [(0, widget_row [] ''red'' [] ''1kg''), (3, widget_row ''Acme'' [] [] []),
                   (7, widget_row ''Bolt'' [] ''L'' [])]"

section \<open>Notions used to state the properties of the whole transform\<close>

text \<open>A row with its four derived cells, and the columns of the table once the derived
  columns have been assigned.\<close>

definition with_derived :: "series \<Rightarrow> string \<Rightarrow> pyval \<Rightarrow> series" where
  "with_derived r d k =
     r(''description'' := Atom (AStr d),
       ''normalized_desc'' := Atom (AStr (normalize d)),
       ''desc_prefix'' := Atom (AStr (take 20 (normalize d))),
       ''dedup_key'' := k)"

definition add_col :: "string \<Rightarrow> string list \<Rightarrow> string list" where
  "add_col c cs = (if c \<in> set cs then cs else cs @ [c])"

definition derived_cols :: "string list \<Rightarrow> string list" where
  "derived_cols cs =
     add_col ''dedup_key'' (add_col ''desc_prefix'' (add_col ''normalized_desc''
       (add_col ''description'' cs)))"

text \<open>The keys of the records of a table, and the keys derived again from the records of
  the output of the transform.\<close>

definition frame_keys :: "frame \<Rightarrow> error + pyval list" where
  "frame_keys df = sequence (map (\<lambda>ir. record_key (columns df) (snd ir)) (rows df))"

definition output_keys :: "frame \<Rightarrow> error + pyval list" where
  "output_keys df = (case dedup df of Inl e \<Rightarrow> Inl e | Inr out \<Rightarrow> frame_keys out)"




section \<open>Example tables\<close>



text \<open>Three records of one page. The first two share a key; merging them fills the title
  of the first from the second, which changes the description extracted from the merged
  record to that of the third.\<close>

definition remerge_cols :: "string list" where
  "remerge_cols = [''page_url'', ''product_summary'', ''product_title'', ''product_name'']"

definition remerge_row :: "string \<Rightarrow> string \<Rightarrow> string \<Rightarrow> series" where
  "remerge_row s t n =
     row_of [(''page_url'', str ''http://a.com/p1''), (''product_summary'', str s),
             (''product_title'', str t), (''product_name'', str n)]"

definition remerge_table :: frame where
  "remerge_table =
     \<lparr>columns = remerge_cols,
      rows = [(0, remerge_row ''xy'' [] ''widget one''),
              (1, remerge_row ''widget one'' ''totally different'' []),
              (2, remerge_row [] ''totally different'' [])]\<rparr>"

text \<open>Three records of two pages; the first two differ in the case and the spacing of
  the name only.\<close>

definition scenario_table :: frame where
  "scenario_table =
     \<lparr>columns = [''page_url'', ''product_name'', ''brand''],
      rows = [(0, row_of [(''page_url'', str ''http://a.com/p1''),
                          (''product_name'', str ''Blue Widget''), (''brand'', str [])]),
              (1, row_of [(''page_url'', str ''http://a.com/p1''),
                          (''product_name'', str ''blue   widget''), (''brand'', str ''Acme'')]),
              (2, row_of [(''page_url'', str ''http://a.com/p2''),
                          (''product_name'', str ''Red widget''), (''brand'', str ''Bolt'')])]\<rparr>"

text \<open>The last part of the transform, from the grouping of the keyed rows on.\<close>

definition merge_and_drop :: "string list \<Rightarrow> (nat \<times> series) list \<Rightarrow> error + frame" where
  "merge_and_drop cols rs =
     (case sequence (map (\<lambda>kg. merge_group cols (snd kg)) (groupby rs)) of
        Inl e \<Rightarrow> Inl e
      | Inr deduplicated \<Rightarrow>
         if deduplicated = [] then Inl KeyError
         else Inr \<lparr>columns = filter (\<lambda>c. c \<notin> set temp_cols) cols,
                   rows = enumerate 0 deduplicated\<rparr>)"

section \<open>Facts about strings and description extraction\<close>

lemma is_space_blank: "is_space CHR '' ''"
  by (simp add: is_space_def)

lemma lower_char_idem: "lower_char (lower_char c) = lower_char c"
proof -
  have lt: "(of_char c :: nat) < 256" by simp
  show ?thesis
    unfolding lower_char_def Let_def using lt by (auto simp: of_char_of)
qed

lemma lower_idem: "lower (lower s) = lower s"
  by (simp add: lower_def lower_char_idem)

lemma lower_fixed: "set s \<subseteq> range lower_char \<Longrightarrow> lower s = s"
  unfolding lower_def by (induction s) (auto simp: lower_char_idem)

lemma dropWhile_fixed: "s = [] \<or> \<not> P (hd s) \<Longrightarrow> dropWhile P s = s"
  by (cases s) auto

lemma strip_fixed:
  assumes "s = [] \<or> (\<not> is_space (hd s) \<and> \<not> is_space (last s))"
  shows "strip s = s"
proof (cases "s = []")
  case True
  then show ?thesis by (simp add: strip_def)
next
  case False
  with assms have h: "\<not> is_space (hd s)" and l: "\<not> is_space (last s)" by auto
  have "dropWhile is_space s = s" using h by (simp add: dropWhile_fixed)
  moreover have "dropWhile is_space (rev s) = rev s"
    using l False by (intro dropWhile_fixed) (simp add: hd_rev)
  ultimately show ?thesis by (simp add: strip_def)
qed

lemma strip_ends: "strip s = [] \<or> (\<not> is_space (hd (strip s)) \<and> \<not> is_space (last (strip s)))"
proof (cases "strip s = []")
  case True
  then show ?thesis by simp
next
  case False
  define t where "t = dropWhile is_space s"
  define u where "u = dropWhile is_space (rev t)"
  have su: "strip s = rev u" by (simp add: strip_def t_def u_def)
  with False have une: "u \<noteq> []" by simp
  then have tne: "t \<noteq> []" by (auto simp: u_def)
  have hu: "\<not> is_space (hd u)" using une unfolding u_def by (rule hd_dropWhile)
  have ht: "\<not> is_space (hd t)" using tne unfolding t_def by (rule hd_dropWhile)
  obtain p where p: "rev t = p @ u"
    unfolding u_def by (metis takeWhile_dropWhile_id)
  then have "t = rev u @ rev p" by (metis rev_append rev_rev_ident)
  then have "hd t = hd (rev u)" using une by simp
  then have "\<not> is_space (hd (strip s))" using ht su by simp
  moreover have "\<not> is_space (last (strip s))" using hu su une by (simp add: last_rev)
  ultimately show ?thesis by simp
qed

lemma strip_idem: "strip (strip s) = strip s"
  using strip_ends [of s] by (rule strip_fixed)

lemma strip_subset: "set (strip s) \<subseteq> set s"
proof -
  have "set (strip s) \<subseteq> set (dropWhile is_space s)"
    unfolding strip_def using set_dropWhileD by fastforce
  also have "\<dots> \<subseteq> set s" using set_dropWhileD by fastforce
  finally show ?thesis .
qed

lemma split_empty: "dropWhile is_space s = [] \<Longrightarrow> split s = []"
  by (subst split.simps) simp

lemma split_step:
  "dropWhile is_space s = t \<Longrightarrow> t \<noteq> [] \<Longrightarrow>
     split s = takeWhile (\<lambda>c. \<not> is_space c) t # split (dropWhile (\<lambda>c. \<not> is_space c) t)"
  by (subst split.simps) (simp add: Let_def)

lemma words_ok_Cons:
  "words_ok (w # ws) = (w \<noteq> [] \<and> (\<forall>c\<in>set w. \<not> is_space c) \<and> words_ok ws)"
  by (auto simp: words_ok_def)

lemma split_words_ok: "words_ok (split s)"
proof (induction s rule: split.induct)
  case (1 s)
  define t where "t = dropWhile is_space s"
  show ?case
  proof (cases "t = []")
    case True
    then have "split s = []" unfolding t_def by (rule split_empty)
    then show ?thesis by (simp add: words_ok_def)
  next
    case False
    have ht: "\<not> is_space (hd t)" using False unfolding t_def by (rule hd_dropWhile)
    have ne: "takeWhile (\<lambda>c. \<not> is_space c) t \<noteq> []"
      using False ht by (cases t) auto
    have ns: "\<forall>c\<in>set (takeWhile (\<lambda>c. \<not> is_space c) t). \<not> is_space c"
      using set_takeWhileD by fastforce
    have ih: "words_ok (split (dropWhile (\<lambda>c. \<not> is_space c) t))"
      using "1.IH" [OF t_def False] .
    have "split s = takeWhile (\<lambda>c. \<not> is_space c) t # split (dropWhile (\<lambda>c. \<not> is_space c) t)"
      using t_def [symmetric] False by (rule split_step)
    then show ?thesis
      using ne ns ih by (simp only: words_ok_Cons) simp
  qed
qed

lemma split_subset: "w \<in> set (split s) \<Longrightarrow> set w \<subseteq> set s"
proof (induction s arbitrary: w rule: split.induct)
  case (1 s)
  define t where "t = dropWhile is_space s"
  have ts: "set t \<subseteq> set s" unfolding t_def using set_dropWhileD by fastforce
  show ?case
  proof (cases "t = []")
    case True
    then have "split s = []" unfolding t_def by (rule split_empty)
    with "1.prems" show ?thesis by simp
  next
    case False
    have "split s = takeWhile (\<lambda>c. \<not> is_space c) t # split (dropWhile (\<lambda>c. \<not> is_space c) t)"
      using t_def [symmetric] False by (rule split_step)
    with "1.prems" have
      "w = takeWhile (\<lambda>c. \<not> is_space c) t \<or> w \<in> set (split (dropWhile (\<lambda>c. \<not> is_space c) t))"
      by simp
    then show ?thesis
    proof
      assume "w = takeWhile (\<lambda>c. \<not> is_space c) t"
      then have "set w \<subseteq> set t" using set_takeWhileD by fastforce
      with ts show ?thesis by blast
    next
      assume "w \<in> set (split (dropWhile (\<lambda>c. \<not> is_space c) t))"
      then have "set w \<subseteq> set (dropWhile (\<lambda>c. \<not> is_space c) t)"
        using "1.IH" [OF t_def False] by blast
      also have "\<dots> \<subseteq> set t" using set_dropWhileD by fastforce
      finally show ?thesis using ts by blast
    qed
  qed
qed

lemma split_dropWhile: "split (dropWhile is_space s) = split s"
proof (cases "dropWhile is_space s = []")
  case True
  then show ?thesis by (simp add: split_empty)
next
  case False
  have "dropWhile is_space (dropWhile is_space s) = dropWhile is_space s"
    using False hd_dropWhile [of is_space s] by (cases "dropWhile is_space s") auto
  then show ?thesis
    using False split_step [of s, OF refl] split_step [of "dropWhile is_space s" "dropWhile is_space s"]
    by simp
qed

lemma split_Nil: "split [] = []"
  by (simp add: split_empty)

lemma split_word_append:
  assumes "w \<noteq> []" "\<forall>c\<in>set w. \<not> is_space c"
  shows "split (w @ CHR '' '' # rest) = w # split rest"
proof -
  have hw: "\<not> is_space (hd w)" using assms by (cases w) auto
  have d: "dropWhile is_space (w @ CHR '' '' # rest) = w @ CHR '' '' # rest"
    using assms hw by (intro dropWhile_fixed) simp
  have t: "takeWhile (\<lambda>c. \<not> is_space c) (w @ CHR '' '' # rest) = w"
    using assms by (simp add: takeWhile_append2 is_space_blank)
  have r: "dropWhile (\<lambda>c. \<not> is_space c) (w @ CHR '' '' # rest) = CHR '' '' # rest"
    using assms by (simp add: dropWhile_append2 is_space_blank)
  have "split (CHR '' '' # rest) = split rest"
    using split_dropWhile [of "CHR '' '' # rest"] split_dropWhile [of rest]
    by (simp add: is_space_blank)
  then show ?thesis
    using split_step [OF d] t r by simp
qed

lemma split_word:
  assumes "w \<noteq> []" "\<forall>c\<in>set w. \<not> is_space c"
  shows "split w = [w]"
proof -
  have hw: "\<not> is_space (hd w)" using assms by (cases w) auto
  have d: "dropWhile is_space w = w" using hw by (simp add: dropWhile_fixed)
  have t: "takeWhile (\<lambda>c. \<not> is_space c) w = w" using assms by simp
  have r: "dropWhile (\<lambda>c. \<not> is_space c) w = []" using assms by simp
  have "w \<noteq> []" using assms by simp
  from split_step [OF d this] show ?thesis by (simp add: t r split_Nil)
qed

lemma split_join: "words_ok ws \<Longrightarrow> split (join '' '' ws) = ws"
proof (induction "'' ''" ws rule: join.induct)
  case 1
  then show ?case by (simp add: split_Nil)
next
  case (2 w)
  then show ?case by (simp add: split_word words_ok_def)
next
  case (3 w v ws)
  then have "split (join '' '' (v # ws)) = v # ws" by (simp add: words_ok_def)
  moreover have "w \<noteq> []" "\<forall>c\<in>set w. \<not> is_space c" using 3 by (auto simp: words_ok_def)
  ultimately show ?case by (simp add: split_word_append)
qed

lemma join_ends:
  "words_ok ws \<Longrightarrow> ws \<noteq> [] \<Longrightarrow>
     join '' '' ws \<noteq> [] \<and> hd (join '' '' ws) = hd (hd ws) \<and> last (join '' '' ws) = last (last ws)"
proof (induction "'' ''" ws rule: join.induct)
  case 1
  then show ?case by simp
next
  case (2 w)
  then show ?case by (simp add: words_ok_def)
next
  case (3 w v ws)
  then have "join '' '' (v # ws) \<noteq> [] \<and> last (join '' '' (v # ws)) = last (last (v # ws))"
    by (simp add: words_ok_def)
  moreover have "w \<noteq> []" using 3 by (auto simp: words_ok_def)
  ultimately show ?case by simp
qed

lemma strip_join: assumes "words_ok ws" shows "strip (join '' '' ws) = join '' '' ws"
proof (cases "ws = []")
  case True
  then show ?thesis by (simp add: strip_def)
next
  case False
  from join_ends [OF assms False] have
    ne: "join '' '' ws \<noteq> []" and h: "hd (join '' '' ws) = hd (hd ws)"
    and l: "last (join '' '' ws) = last (last ws)" by auto
  have "hd ws \<in> set ws" "last ws \<in> set ws" using False by auto
  then have "hd ws \<noteq> []" "last ws \<noteq> []" "\<forall>c\<in>set (hd ws). \<not> is_space c" "\<forall>c\<in>set (last ws). \<not> is_space c"
    using assms unfolding words_ok_def by blast+
  then have "\<not> is_space (hd (hd ws))" "\<not> is_space (last (last ws))"
    by (auto simp: hd_in_set last_in_set)
  then show ?thesis using h l by (intro strip_fixed) simp
qed

lemma set_join: "set (join '' '' ws) \<subseteq> insert CHR '' '' (\<Union>(set ` set ws))"
  by (induction "'' ''" ws rule: join.induct) auto

lemma blank_lower: "CHR '' '' \<in> range lower_char"
proof -
  have "lower_char CHR '' '' = CHR '' ''" by (simp add: lower_char_def)
  then show ?thesis by (metis rangeI)
qed

lemma normalize_idem: "normalize (normalize s) = normalize s"
proof (cases "normalize s = []")
  case True
  then show ?thesis by (simp add: normalize_def)
next
  case False
  then have sne: "s \<noteq> []" by (auto simp: normalize_def)
  define ws where "ws = split (strip (lower s))"
  have n: "normalize s = join '' '' ws" using sne by (simp add: normalize_def ws_def)
  have ok: "words_ok ws" unfolding ws_def by (rule split_words_ok)
  have "\<Union>(set ` set ws) \<subseteq> set (lower s)"
    unfolding ws_def using split_subset strip_subset by blast
  also have "\<dots> \<subseteq> range lower_char" by (auto simp: lower_def)
  finally have "set (join '' '' ws) \<subseteq> range lower_char"
    using set_join [of ws] blank_lower by blast
  then have "lower (join '' '' ws) = join '' '' ws" by (rule lower_fixed)
  then have "join '' '' (split (strip (lower (join '' '' ws)))) = join '' '' ws"
    using ok by (simp add: strip_join split_join)
  then show ?thesis using False n by (simp add: normalize_def)
qed

lemma get_description_from_shape:
  "get_description_from fs cols row = Inr d \<Longrightarrow> d = [] \<or> (strip d = d \<and> 3 \<le> length d)"
proof (induction fs)
  case Nil
  then show ?case by simp
next
  case (Cons f fs)
  then show ?case
    by (auto simp: strip_idem split: if_splits sum.splits pyval.splits atom.splits)
qed

lemma truthy_qualifies: "qualifies v \<Longrightarrow> truthy v = Inr True"
proof (cases v rule: qualifies.cases)
  case (1 s)
  assume "qualifies v"
  with 1 have "3 \<le> length (strip s)" by simp
  then have "strip s \<noteq> []" by auto
  then have "s \<noteq> []" by (auto simp: strip_def)
  with 1 show ?thesis by simp
qed auto

lemma get_description_from_find:
  assumes "\<forall>f\<in>set fs. f \<in> set cols \<longrightarrow> has_truth (row f)"
  shows "get_description_from fs cols row =
           Inr (case find (\<lambda>f. f \<in> set cols \<and> qualifies (row f)) fs of
                  None \<Rightarrow> [] | Some f \<Rightarrow> strip (str_of (row f)))"
  using assms
proof (induction fs)
  case Nil
  then show ?case by simp
next
  case (Cons f fs)
  show ?case
  proof (cases "f \<in> set cols")
    case False
    with Cons show ?thesis by simp
  next
    case True
    with Cons.prems obtain t where t: "truthy (row f) = Inr t"
      by (cases "truthy (row f)") (auto simp: has_truth_def)
    show ?thesis
    proof (cases "qualifies (row f)")
      case q: True
      then obtain s where s: "row f = Atom (AStr s)" "3 \<le> length (strip s)"
        by (cases "row f" rule: qualifies.cases) auto
      from truthy_qualifies [OF q] t have "t" by simp
      with True t s q show ?thesis by simp
    next
      case q: False
      have "get_description_from (f # fs) cols row = get_description_from fs cols row"
        using True t q by (cases "row f" rule: qualifies.cases) auto
      with Cons True q show ?thesis by simp
    qed
  qed
qed

lemma get_description_from_source:
  "get_description_from fs cols row = Inr d \<Longrightarrow>
     d = [] \<or> (\<exists>f\<in>set fs. f \<in> set cols \<and> (\<exists>s. row f = Atom (AStr s) \<and> d = strip s))"
proof (induction fs)
  case Nil
  then show ?case by simp
next
  case (Cons f fs)
  show ?case
  proof (cases "get_description_from (f # fs) cols row = get_description_from fs cols row")
    case True
    with Cons show ?thesis by auto
  next
    case False
    then have "f \<in> set cols \<and> (\<exists>s. row f = Atom (AStr s) \<and> d = strip s)"
      using Cons.prems
      by (auto split: if_splits sum.splits pyval.splits atom.splits)
    then show ?thesis by auto
  qed
qed

section \<open>Facts about key construction\<close>

lemma key_split:
  assumes "CHR ''|'' \<notin> set u1" "CHR ''|'' \<notin> set u2"
    and eq: "u1 @ ''|||'' @ p1 = u2 @ ''|||'' @ p2"
  shows "u1 = u2 \<and> p1 = p2"
proof -
  have t: "takeWhile (\<lambda>c. c \<noteq> CHR ''|'') (u @ ''|||'' @ p) = u" if "CHR ''|'' \<notin> set u" for u p
    using that by (induction u) auto
  have "u1 = takeWhile (\<lambda>c. c \<noteq> CHR ''|'') (u1 @ ''|||'' @ p1)"
    using t [OF assms(1)] by simp
  also have "\<dots> = takeWhile (\<lambda>c. c \<noteq> CHR ''|'') (u2 @ ''|||'' @ p2)"
    using eq by simp
  also have "\<dots> = u2" using t [OF assms(2)] .
  finally have "u1 = u2" .
  with eq show ?thesis by simp
qed

lemma desc_prefix_str: "desc_prefix (Atom (AStr s)) = Atom (AStr (take 20 s))"
  by (simp add: desc_prefix_def fillna_def)

lemma record_key_str:
  assumes "''page_url'' \<in> set cols" "row ''page_url'' = Atom (AStr u)"
    and "get_description cols row = Inr d"
  shows "record_key cols row = Inr (Atom (AStr (u @ ''|||'' @ take 20 (normalize d))))"
  using assms by (simp add: record_key_def dedup_key_def desc_prefix_str)

lemma get_description_total:
  assumes "\<forall>f\<in>set candidate_fields. f \<in> set cols \<longrightarrow> has_truth (row f)"
  shows "\<exists>d. get_description cols row = Inr d"
  using get_description_from_find [OF assms] by (simp add: get_description_def)

section \<open>Facts about the merge of a group\<close>

lemma first_max_single: "first_max [n] = 0"
  by (simp add: first_max_def)

lemma first_max_Cons:
  assumes "ns \<noteq> []"
  shows "first_max (n # ns) = (if Max (set ns) \<le> n then 0 else Suc (first_max ns))"
proof -
  have m: "Max (set (n # ns)) = max n (Max (set ns))"
    using assms by simp
  show ?thesis
  proof (cases "Max (set ns) \<le> n")
    case True
    then have "Max (set (n # ns)) = n" using m by simp
    then show ?thesis using True by (simp add: first_max_def)
  next
    case False
    then have "Max (set (n # ns)) = Max (set ns)" using m by simp
    then show ?thesis using False by (simp add: first_max_def)
  qed
qed

lemma first_max_less: "ns \<noteq> [] \<Longrightarrow> first_max ns < length ns"
proof -
  assume ne: "ns \<noteq> []"
  then have "Max (set ns) \<in> set ns" by (intro Max_in) auto
  then have "\<exists>n\<in>set ns. \<not> n < Max (set ns)" by blast
  then have "takeWhile (\<lambda>n. n < Max (set ns)) ns \<noteq> ns"
    by (simp add: takeWhile_eq_all_conv)
  moreover have "length (takeWhile (\<lambda>n. n < Max (set ns)) ns) \<le> length ns"
    by (rule length_takeWhile_le)
  ultimately show ?thesis
    unfolding first_max_def
    by (metis le_neq_implies_less takeWhile_eq_take take_all_iff order_refl)
qed

lemma first_max_is_Max: "ns \<noteq> [] \<Longrightarrow> ns ! first_max ns = Max (set ns)"
proof -
  assume ne: "ns \<noteq> []"
  have lt: "first_max ns < length ns" using ne by (rule first_max_less)
  then have "\<not> ns ! first_max ns < Max (set ns)"
    unfolding first_max_def by (rule nth_length_takeWhile)
  moreover have "ns ! first_max ns \<le> Max (set ns)"
    using lt by (intro Max_ge) auto
  ultimately show ?thesis by simp
qed

lemma first_max_before: "i < first_max ns \<Longrightarrow> ns ! i < Max (set ns)"
  unfolding first_max_def
  by (metis (no_types, lifting) nth_mem takeWhile_nth set_takeWhileD)


subsection \<open>The first loop\<close>

lemma fold_best_step:
  "fold (best_step cols) g (bi, bc) =
     (if \<forall>ir\<in>set g. int (count_nonempty cols (snd ir)) \<le> bc then (bi, bc)
      else (Some (fst (g ! first_max (map (\<lambda>ir. count_nonempty cols (snd ir)) g))),
            int (Max (set (map (\<lambda>ir. count_nonempty cols (snd ir)) g)))))"
proof (induction g arbitrary: bi bc)
  case Nil
  then show ?case by simp
next
  case (Cons x xs)
  let ?c = "\<lambda>ir. count_nonempty cols (snd ir)"
  show ?case
  proof (cases "xs = []")
    case True
    then show ?thesis by (simp add: best_step_def first_max_single)
  next
    case False
    define ns where "ns = map ?c xs"
    define M where "M = Max (set ns)"
    have nne: "ns \<noteq> []" using False by (simp add: ns_def)
    have mx: "\<And>n. (M \<le> n) = (\<forall>ir\<in>set xs. ?c ir \<le> n)"
      unfolding M_def ns_def using False by (subst Max_le_iff) auto
    have fm: "first_max (?c x # ns) = (if M \<le> ?c x then 0 else Suc (first_max ns))"
      unfolding M_def using nne by (rule first_max_Cons)
    have mm: "Max (set (?c x # ns)) = max (?c x) M"
      unfolding M_def using nne by simp
    have goal_eq:
      "(Some (fst ((x # xs) ! first_max (map ?c (x # xs)))), int (Max (set (map ?c (x # xs))))) =
       (if M \<le> ?c x then (Some (fst x), int (?c x))
        else (Some (fst (xs ! first_max ns)), int M))"
    proof -
      have "map ?c (x # xs) = ?c x # ns" by (simp add: ns_def)
      then show ?thesis by (simp only: fm mm) (simp add: max_def)
    qed
    have ih: "\<And>bi bc. fold (best_step cols) xs (bi, bc) =
                 (if \<forall>ir\<in>set xs. int (?c ir) \<le> bc then (bi, bc)
                  else (Some (fst (xs ! first_max ns)), int M))"
      unfolding M_def ns_def by (rule Cons.IH)
    have all_Cons: "\<And>bc. (\<forall>ir\<in>set (x # xs). int (?c ir) \<le> bc) =
                      (int (?c x) \<le> bc \<and> (\<forall>ir\<in>set xs. int (?c ir) \<le> bc))"
      by simp
    have fold_Cons: "fold (best_step cols) (x # xs) (bi, bc) =
                       fold (best_step cols) xs (best_step cols x (bi, bc))"
      by simp
    show ?thesis
    proof (cases "int (?c x) > bc")
      case gt: True
      then have st: "best_step cols x (bi, bc) = (Some (fst x), int (?c x))"
        by (simp add: best_step_def)
      have i: "(\<forall>ir\<in>set xs. int (?c ir) \<le> int (?c x)) = (M \<le> ?c x)"
        by (simp add: mx)
      show ?thesis
        unfolding fold_Cons st ih all_Cons goal_eq i using gt by auto
    next
      case le: False
      then have st: "best_step cols x (bi, bc) = (bi, bc)"
        by (simp add: best_step_def)
      show ?thesis
      proof (cases "\<forall>ir\<in>set xs. int (?c ir) \<le> bc")
        case True
        then show ?thesis
          unfolding fold_Cons st ih all_Cons goal_eq using le by auto
      next
        case nall: False
        then obtain ir where ir: "ir \<in> set xs" "bc < int (?c ir)" by auto
        have nle: "\<not> M \<le> ?c x" unfolding mx using ir le by force
        show ?thesis
          unfolding fold_Cons st ih all_Cons goal_eq using nall nle by auto
      qed
    qed
  qed
qed

lemma find_best_pos:
  assumes "g \<noteq> []"
  shows "fst (find_best cols g) = Some (fst (g ! spec_base_pos cols (map snd g)))"
proof -
  have "\<not> (\<forall>ir\<in>set g. int (count_nonempty cols (snd ir)) \<le> - 1)"
    using assms by (cases g) auto
  then show ?thesis
    unfolding find_best_def spec_base_pos_def
    by (simp add: fold_best_step comp_def)
qed

lemma spec_base_pos_less: "rs \<noteq> [] \<Longrightarrow> spec_base_pos cols rs < length rs"
  unfolding spec_base_pos_def using first_max_less [of "map (count_nonempty cols) rs"] by simp

lemma spec_base_is_max:
  assumes "r \<in> set rs"
  shows "count_nonempty cols r \<le> count_nonempty cols (rs ! spec_base_pos cols rs)"
proof -
  have ne: "rs \<noteq> []" using assms by auto
  let ?ns = "map (count_nonempty cols) rs"
  have "?ns ! first_max ?ns = Max (set ?ns)" using ne by (intro first_max_is_Max) simp
  moreover have "first_max ?ns < length rs" using ne first_max_less [of ?ns] by simp
  ultimately have "count_nonempty cols (rs ! spec_base_pos cols rs) = Max (set ?ns)"
    by (simp add: spec_base_pos_def)
  moreover have "count_nonempty cols r \<le> Max (set ?ns)" using assms by (intro Max_ge) auto
  ultimately show ?thesis by simp
qed

subsection \<open>The second loop\<close>

lemma fill_from_spec: "fill_from cols other merged = spec_fill_record cols other merged"
  unfolding fill_from_def spec_fill_record_def original_fields_def
  by (induction cols arbitrary: merged) (auto simp: fill_col_def spec_fill_field_def)

lemma fold_fill_step_others:
  "\<forall>ir\<in>set xs. fst ir \<noteq> k \<Longrightarrow>
     fold (fill_step cols k) xs m = fold (spec_fill_record cols) (map snd xs) m"
  by (induction xs arbitrary: m) (auto simp: fill_step_def fill_from_spec)

lemma fold_fill_step_skip:
  assumes d: "distinct (map fst g)" and b: "b < length g"
  shows "fold (fill_step cols (fst (g ! b))) g m =
           fold (spec_fill_record cols) (map snd (take b g @ drop (Suc b) g)) m"
proof -
  have g: "g = take b g @ g ! b # drop (Suc b) g" using b by (rule id_take_nth_drop)
  have "distinct (map fst (take b g @ g ! b # drop (Suc b) g))" using d g by simp
  then have "fst (g ! b) \<notin> fst ` set (take b g)" and "fst (g ! b) \<notin> fst ` set (drop (Suc b) g)"
    by simp_all
  then have n1: "\<forall>ir\<in>set (take b g). fst ir \<noteq> fst (g ! b)"
    and n2: "\<forall>ir\<in>set (drop (Suc b) g). fst ir \<noteq> fst (g ! b)"
    by (metis imageI)+
  have "fold (fill_step cols (fst (g ! b))) g m =
          fold (fill_step cols (fst (g ! b))) (drop (Suc b) g)
            (fill_step cols (fst (g ! b)) (g ! b)
               (fold (fill_step cols (fst (g ! b))) (take b g) m))"
    by (subst g) simp
  also have "\<dots> = fold (fill_step cols (fst (g ! b))) (drop (Suc b) g)
                     (fold (fill_step cols (fst (g ! b))) (take b g) m)"
    by (simp add: fill_step_def)
  also have "\<dots> = fold (spec_fill_record cols) (map snd (drop (Suc b) g))
                     (fold (spec_fill_record cols) (map snd (take b g)) m)"
    by (simp add: fold_fill_step_others [OF n1] fold_fill_step_others [OF n2])
  finally show ?thesis by simp
qed

lemma map_of_nth: "distinct (map fst g) \<Longrightarrow> b < length g \<Longrightarrow> map_of g (fst (g ! b)) = Some (snd (g ! b))"
  by simp

lemma merge_group_spec:
  assumes d: "distinct (map fst g)" and n: "1 < length g"
  shows "merge_group cols g = Inr (spec_merge cols (map snd g))"
proof -
  have ne: "g \<noteq> []" using n by auto
  define b where "b = spec_base_pos cols (map snd g)"
  have b: "b < length g" using ne spec_base_pos_less [of "map snd g" cols] by (simp add: b_def)
  have fb: "fst (find_best cols g) = Some (fst (g ! b))"
    using ne unfolding b_def by (rule find_best_pos)
  have mo: "map_of g (fst (g ! b)) = Some (snd (g ! b))" using d b by (rule map_of_nth)
  have "merge_group cols g = Inr (fold (fill_step cols (fst (g ! b))) g (snd (g ! b)))"
    using n by (simp add: merge_group_def fb mo)
  also have "\<dots> = Inr (fold (spec_fill_record cols) (map snd (take b g @ drop (Suc b) g)) (snd (g ! b)))"
    by (simp only: fold_fill_step_skip [OF d b])
  also have "\<dots> = Inr (spec_merge cols (map snd g))"
    using b by (simp add: spec_merge_def b_def [symmetric] take_map drop_map)
  finally show ?thesis .
qed

subsection \<open>Filled fields stay\<close>

lemma spec_fill_field_kept:
  "\<not> is_empty (m c) \<Longrightarrow> spec_fill_field other col m c = m c"
  by (auto simp: spec_fill_field_def)

lemma spec_fill_field_nonempty:
  "\<not> is_empty (m c) \<Longrightarrow> \<not> is_empty (spec_fill_field other col m c)"
  by (simp add: spec_fill_field_kept)

lemma fold_spec_fill_field_kept:
  "\<not> is_empty (m c) \<Longrightarrow> fold (spec_fill_field other) fs m c = m c"
proof (induction fs arbitrary: m)
  case Nil
  then show ?case by simp
next
  case (Cons f fs)
  have k: "spec_fill_field other f m c = m c" using Cons.prems by (rule spec_fill_field_kept)
  then have "\<not> is_empty (spec_fill_field other f m c)" using Cons.prems by simp
  then have "fold (spec_fill_field other) fs (spec_fill_field other f m) c
               = spec_fill_field other f m c" by (rule Cons.IH)
  with k show ?case by simp
qed

lemma spec_fill_record_kept:
  "\<not> is_empty (m c) \<Longrightarrow> spec_fill_record cols other m c = m c"
  unfolding spec_fill_record_def by (rule fold_spec_fill_field_kept)

lemma fold_spec_fill_record_kept:
  "\<not> is_empty (m c) \<Longrightarrow> fold (spec_fill_record cols) others m c = m c"
proof (induction others arbitrary: m)
  case Nil
  then show ?case by simp
next
  case (Cons other others)
  have k: "spec_fill_record cols other m c = m c" using Cons.prems by (rule spec_fill_record_kept)
  then have "\<not> is_empty (spec_fill_record cols other m c)" using Cons.prems by simp
  then have "fold (spec_fill_record cols) others (spec_fill_record cols other m) c
               = spec_fill_record cols other m c" by (rule Cons.IH)
  with k show ?case by simp
qed

lemma spec_merge_keeps_base:
  "\<not> is_empty ((rs ! spec_base_pos cols rs) c) \<Longrightarrow>
     spec_merge cols rs c = (rs ! spec_base_pos cols rs) c"
  unfolding spec_merge_def Let_def by (rule fold_spec_fill_record_kept)

lemma count_nonempty_mono:
  assumes "\<And>c. \<not> is_empty (m c) \<Longrightarrow> \<not> is_empty (m' c)"
  shows "count_nonempty cols m \<le> count_nonempty cols m'"
proof -
  have "length (filter (\<lambda>col. col \<notin> set temp_cols \<and> \<not> is_empty (m col)) cs)
          \<le> length (filter (\<lambda>col. col \<notin> set temp_cols \<and> \<not> is_empty (m' col)) cs)" for cs
    using assms by (induction cs) auto
  then show ?thesis by (simp add: count_nonempty_def)
qed

lemma spec_merge_count:
  "count_nonempty cols (rs ! spec_base_pos cols rs) \<le> count_nonempty cols (spec_merge cols rs)"
proof (rule count_nonempty_mono)
  fix c
  assume "\<not> is_empty ((rs ! spec_base_pos cols rs) c)"
  then show "\<not> is_empty (spec_merge cols rs c)" by (simp add: spec_merge_keeps_base)
qed

lemma spec_base_before:
  assumes "i < spec_base_pos cols rs"
  shows "count_nonempty cols (rs ! i) < count_nonempty cols (rs ! spec_base_pos cols rs)"
proof -
  let ?ns = "map (count_nonempty cols) rs"
  have i: "i < first_max ?ns" using assms by (simp add: spec_base_pos_def)
  have ne: "?ns \<noteq> []" using i by (auto simp: first_max_def)
  have lt: "first_max ?ns < length ?ns" using ne by (rule first_max_less)
  have "?ns ! i < Max (set ?ns)" using i by (rule first_max_before)
  also have "\<dots> = ?ns ! first_max ?ns" using first_max_is_Max [OF ne] by simp
  finally show ?thesis using i lt by (simp add: spec_base_pos_def)
qed

section \<open>Facts about the whole transform\<close>

lemma sequence_map_Inr:
  "\<forall>x\<in>set xs. f x = Inr (g x) \<Longrightarrow> sequence (map f xs) = Inr (map g xs)"
  by (induction xs) auto

lemma sequence_Inr_nth:
  "sequence xs = Inr ys \<Longrightarrow> length ys = length xs \<and> (\<forall>i<length xs. xs ! i = Inr (ys ! i))"
proof (induction xs arbitrary: ys)
  case Nil
  then show ?case by simp
next
  case (Cons x xs)
  from Cons.prems obtain v vs where x: "x = Inr v" and s: "sequence xs = Inr vs" and ys: "ys = v # vs"
    by (auto split: sum.splits)
  from Cons.IH [OF s] have l: "length vs = length xs" and n: "\<forall>i<length xs. xs ! i = Inr (vs ! i)"
    by auto
  show ?case
  proof (intro conjI allI impI)
    show "length ys = length (x # xs)" using l ys by simp
  next
    fix i assume "i < length (x # xs)"
    then show "(x # xs) ! i = Inr (ys ! i)" using x ys n by (cases i) auto
  qed
qed

lemma columns_set_column: "columns (set_column c vs df) = add_col c (columns df)"
  by (simp add: set_column_def add_col_def)

lemma rows_set_column_map:
  assumes "rows df = map g xs"
  shows "rows (set_column c (map h xs) df) = map (\<lambda>x. (fst (g x), (snd (g x))(c := h x))) xs"
proof -
  have "zip (map g xs) (map h xs) = map (\<lambda>x. (g x, h x)) xs"
    by (induction xs) auto
  then show ?thesis using assms by (simp add: set_column_def)
qed

lemma add_col_mem: "x \<in> set (add_col c cs) = (x = c \<or> x \<in> set cs)"
  by (auto simp: add_col_def)

lemma filter_add_col:
  "c \<in> set temp_cols \<Longrightarrow>
     filter (\<lambda>x. x \<notin> set temp_cols) (add_col c cs) = filter (\<lambda>x. x \<notin> set temp_cols) cs"
  by (simp add: add_col_def)

lemma filter_derived_cols:
  "filter (\<lambda>x. x \<notin> set temp_cols) (derived_cols cs) = filter (\<lambda>x. x \<notin> set temp_cols) cs"
proof -
  have m: "''description'' \<in> set temp_cols" "''normalized_desc'' \<in> set temp_cols"
    "''desc_prefix'' \<in> set temp_cols" "''dedup_key'' \<in> set temp_cols"
    by (simp_all add: temp_cols_def)
  show ?thesis
    unfolding derived_cols_def by (simp only: filter_add_col [OF m(1)] filter_add_col [OF m(2)]
        filter_add_col [OF m(3)] filter_add_col [OF m(4)])
qed

lemma page_url_derived_cols: "''page_url'' \<in> set (derived_cols cs) = (''page_url'' \<in> set cs)"
  by (simp add: derived_cols_def add_col_mem)


lemma dedup_unfold:
  assumes gd: "\<forall>ir\<in>set (rows df). get_description (columns df) (snd ir) = Inr (D ir)"
    and pu: "''page_url'' \<in> set (columns df)"
    and ky: "\<forall>ir\<in>set (rows df).
               dedup_key (snd ir ''page_url'') (Atom (AStr (take 20 (normalize (D ir))))) = Inr (K ir)"
  shows "dedup df =
           merge_and_drop (derived_cols (columns df))
             (map (\<lambda>ir. (fst ir, with_derived (snd ir) (D ir) (K ir))) (rows df))"
proof -
  let ?rs = "rows df"
  have s1: "sequence (map (\<lambda>ir. get_description (columns df) (snd ir)) ?rs) = Inr (map D ?rs)"
    using gd by (rule sequence_map_Inr)
  define df1 where "df1 = set_column ''description'' (map (\<lambda>d. Atom (AStr d)) (map D ?rs)) df"
  define df2 where
    "df2 = set_column ''normalized_desc'' (map (\<lambda>d. Atom (AStr (normalize d))) (map D ?rs)) df1"
  define df3 where
    "df3 = set_column ''desc_prefix'' (map (\<lambda>ir. desc_prefix (snd ir ''normalized_desc'')) (rows df2)) df2"
  define g1 where "g1 = (\<lambda>ir::nat \<times> series. (fst ir, (snd ir)(''description'' := Atom (AStr (D ir)))))"
  define g2 where "g2 = (\<lambda>ir::nat \<times> series. (fst ir,
      (snd ir)(''description'' := Atom (AStr (D ir)),
               ''normalized_desc'' := Atom (AStr (normalize (D ir))))))"
  define g3 where "g3 = (\<lambda>ir::nat \<times> series. (fst ir,
      (snd ir)(''description'' := Atom (AStr (D ir)),
               ''normalized_desc'' := Atom (AStr (normalize (D ir))),
               ''desc_prefix'' := Atom (AStr (take 20 (normalize (D ir)))))))"
  have r0: "rows df = map (\<lambda>ir. ir) ?rs" by simp
  have r1: "rows df1 = map g1 ?rs"
    unfolding df1_def g1_def map_map
    by (subst rows_set_column_map [OF r0]) (simp add: comp_def)
  have r2: "rows df2 = map g2 ?rs"
    unfolding df2_def g2_def map_map
    by (subst rows_set_column_map [OF r1]) (simp add: comp_def g1_def)
  have v3: "map (\<lambda>ir. desc_prefix (snd ir ''normalized_desc'')) (rows df2)
              = map (\<lambda>ir. Atom (AStr (take 20 (normalize (D ir))))) ?rs"
    by (simp add: r2 g2_def desc_prefix_str)
  have r3: "rows df3 = map g3 ?rs"
    unfolding df3_def v3 g3_def
    by (subst rows_set_column_map [OF r2]) (simp add: g2_def)
  have c3: "columns df3 = add_col ''desc_prefix'' (add_col ''normalized_desc''
              (add_col ''description'' (columns df)))"
    by (simp add: df3_def df2_def df1_def columns_set_column)
  have p3: "''page_url'' \<in> set (columns df3)"
    using pu by (simp add: c3 add_col_mem)
  have k3: "map (\<lambda>ir. dedup_key (snd ir ''page_url'') (snd ir ''desc_prefix'')) (rows df3)
              = map (\<lambda>ir. Inr (K ir)) ?rs"
    using ky by (simp add: r3 g3_def)
  have s2: "sequence (map (\<lambda>ir. dedup_key (snd ir ''page_url'') (snd ir ''desc_prefix'')) (rows df3))
              = Inr (map K ?rs)"
    unfolding k3 by (rule sequence_map_Inr) simp
  define df4 where "df4 = set_column ''dedup_key'' (map K ?rs) df3"
  have r4: "rows df4 = map (\<lambda>ir. (fst ir, with_derived (snd ir) (D ir) (K ir))) ?rs"
    unfolding df4_def
    by (subst rows_set_column_map [OF r3]) (simp add: g3_def with_derived_def)
  have c4: "columns df4 = derived_cols (columns df)"
    by (simp add: df4_def c3 columns_set_column derived_cols_def)
  have "dedup df =
          (case sequence (map (\<lambda>kg. merge_group (columns df4) (snd kg)) (groupby (rows df4))) of
             Inl e \<Rightarrow> Inl e
           | Inr deduplicated \<Rightarrow>
              if deduplicated = [] then Inl KeyError
              else Inr \<lparr>columns = filter (\<lambda>c. c \<notin> set temp_cols) (columns df4),
                        rows = enumerate 0 deduplicated\<rparr>)"
    unfolding dedup_def s1 sum.case Let_def
    using p3 s2
    by (simp only: df1_def [symmetric] df2_def [symmetric] df3_def [symmetric] df4_def [symmetric]
        sum.case if_False not_not if_True simp_thms)
  then show ?thesis
    by (simp only: merge_and_drop_def r4 c4)
qed




lemma with_derived_other:
  "c \<notin> set temp_cols \<Longrightarrow> with_derived r d k c = r c"
  by (auto simp: with_derived_def temp_cols_def)

lemma with_derived_key: "with_derived r d k ''dedup_key'' = k"
  by (simp add: with_derived_def)




lemma partition_by_key:
  "distinct ks \<Longrightarrow>
     mset (concat (map (\<lambda>k. filter (\<lambda>x. f x = k) xs) ks)) = filter_mset (\<lambda>x. f x \<in> set ks) (mset xs)"
proof (induction ks)
  case Nil
  then show ?case by simp
next
  case (Cons k ks)
  then have k: "k \<notin> set ks" and d: "distinct ks" by auto
  have "filter_mset (\<lambda>x. f x = k) (mset xs) + filter_mset (\<lambda>x. f x \<in> set ks) (mset xs)
          = filter_mset (\<lambda>x. f x \<in> set (k # ks)) (mset xs)"
    using k by (intro multiset_eqI) auto
  then show ?case using Cons.IH [OF d] by simp
qed

lemma filter_key_single:
  "distinct (map f xs) \<Longrightarrow> k \<in> f ` set xs \<Longrightarrow> length (filter (\<lambda>x. f x = k) xs) = 1"
proof (induction xs)
  case Nil
  then show ?case by simp
next
  case (Cons x xs)
  show ?case
  proof (cases "f x = k")
    case True
    then have "k \<notin> f ` set xs" using Cons.prems(1) by auto
    then have "filter (\<lambda>x. f x = k) xs = []" by (auto simp: filter_empty_conv)
    with True show ?thesis by simp
  next
    case False
    then have "k \<in> f ` set xs" using Cons.prems(2) by auto
    with Cons False show ?thesis by simp
  qed
qed

lemma singletons_hd: "\<forall>g\<in>set gs. length g = 1 \<Longrightarrow> map hd gs = concat gs"
proof (induction gs)
  case Nil
  then show ?case by simp
next
  case (Cons g gs)
  then have "length g = 1" by simp
  then obtain x where "g = [x]" by (cases g) auto
  with Cons show ?case by simp
qed

lemma merge_group_single: "length g = 1 \<Longrightarrow> merge_group cols g = Inr (snd (hd g))"
  by (simp add: merge_group_def)

lemma key_string_str: "key_string (Atom (AStr k)) = [k]"
  by simp

lemma groupby_distinct_keys:
  assumes keys: "map (\<lambda>ir. snd ir ''dedup_key'') rs = map (\<lambda>k. Atom (AStr k)) ks"
    and d: "distinct ks"
  shows "(\<forall>kg\<in>set (groupby rs). length (snd kg) = 1)
         \<and> mset (concat (map snd (groupby rs))) = mset rs"
proof -
  let ?key = "\<lambda>ir::nat \<times> series. snd ir ''dedup_key''"
  let ?S = "\<lambda>k. Atom (AStr k)"
  have inj: "inj ?S" by (simp add: inj_def)
  have "map key_string (map ?key rs) = map key_string (map ?S ks)"
    by (simp only: keys)
  then have "map (\<lambda>ir. key_string (?key ir)) rs = map (\<lambda>k. [k]) ks"
    by (simp add: comp_def)
  then have "concat (map (\<lambda>ir. key_string (?key ir)) rs) = ks"
    by simp
  then have gk: "group_keys rs = sort ks"
    using d by (simp add: group_keys_def distinct_remdups_id)
  have dk: "distinct (map ?key rs)"
    unfolding keys using d inj by (simp add: distinct_map inj_on_def)
  have "set (map ?key rs) = set (map ?S ks)" by (simp only: keys)
  then have sk: "?key ` set rs = ?S ` set ks" by simp
  have gs: "map snd (groupby rs) = map (\<lambda>k'. filter (\<lambda>ir. ?key ir = k') rs) (map ?S (sort ks))"
    by (simp add: groupby_def gk comp_def)
  have one: "\<forall>kg\<in>set (groupby rs). length (snd kg) = 1"
  proof
    fix kg assume "kg \<in> set (groupby rs)"
    then obtain k where k: "k \<in> set ks" and kg: "snd kg = filter (\<lambda>ir. ?key ir = ?S k) rs"
      by (auto simp: groupby_def gk)
    have "?S k \<in> ?key ` set rs" using k sk by blast
    from filter_key_single [OF dk this] kg show "length (snd kg) = 1" by simp
  qed
  have ds: "distinct (map ?S (sort ks))"
    using d inj by (simp add: distinct_map inj_on_def)
  have "mset (concat (map snd (groupby rs)))
          = filter_mset (\<lambda>ir. ?key ir \<in> set (map ?S (sort ks))) (mset rs)"
    unfolding gs using ds by (rule partition_by_key)
  also have "\<dots> = mset rs"
  proof -
    have "\<forall>ir\<in>set rs. ?key ir \<in> set (map ?S (sort ks))"
      using sk by auto
    then show ?thesis by (simp add: filter_mset_eq_conv)
  qed
  finally show ?thesis using one by blast
qed

lemma dedup_Inr_shape:
  assumes "dedup df = Inr out"
  shows "set (columns out) \<inter> set temp_cols = {} \<and> rows out \<noteq> []"
proof -
  from assms obtain cs deduplicated where
    "out = \<lparr>columns = filter (\<lambda>c. c \<notin> set temp_cols) cs, rows = enumerate 0 deduplicated\<rparr>"
    and "deduplicated \<noteq> []"
    unfolding dedup_def Let_def by (auto split: sum.splits if_splits)
  then show ?thesis by (auto simp: enumerate_eq_zip)
qed

lemma sequence_Inr_map: "sequence xs = Inr ys \<Longrightarrow> xs = map Inr ys"
proof (induction xs arbitrary: ys)
  case Nil
  then show ?case by simp
next
  case (Cons x xs)
  then show ?case by (auto split: sum.splits)
qed

lemma record_key_Inr:
  assumes "record_key cols r = Inr v"
  shows "''page_url'' \<in> set cols
         \<and> (\<exists>d. get_description cols r = Inr d
               \<and> dedup_key (r ''page_url'') (Atom (AStr (take 20 (normalize d)))) = Inr v)"
  using assms by (auto simp: record_key_def desc_prefix_str split: sum.splits if_splits)

lemma dedup_distinct_keys:
  assumes ct: "set (columns f) \<inter> set temp_cols = {}"
    and fk: "frame_keys f = Inr (map (\<lambda>k. Atom (AStr k)) ks)"
    and d: "distinct ks"
    and ne: "rows f \<noteq> []"
  shows "\<exists>out. dedup f = Inr out \<and> columns out = columns f
           \<and> mset (records_of out) = mset (records_of f)"
proof -
  let ?cols = "columns f"
  let ?rk = "\<lambda>ir::nat \<times> series. record_key ?cols (snd ir)"
  define D where "D = (\<lambda>ir::nat \<times> series. projr (get_description ?cols (snd ir)))"
  define K where "K = (\<lambda>ir::nat \<times> series. projr (?rk ir))"
  define h where "h = (\<lambda>ir::nat \<times> series. (fst ir, with_derived (snd ir) (D ir) (K ir)))"
  define R where "R = (\<lambda>r::series. map (\<lambda>c. (c, r c)) ?cols)"
  have rk: "map ?rk (rows f) = map Inr (map (\<lambda>k. Atom (AStr k)) ks)"
    using fk unfolding frame_keys_def by (rule sequence_Inr_map)
  have "map K (rows f) = map projr (map ?rk (rows f))"
    by (simp add: K_def comp_def)
  then have Kk: "map K (rows f) = map (\<lambda>k. Atom (AStr k)) ks"
    unfolding rk by (simp add: comp_def)
  have rkK: "\<forall>ir\<in>set (rows f). ?rk ir = Inr (K ir)"
  proof
    fix ir assume "ir \<in> set (rows f)"
    then have "?rk ir \<in> set (map ?rk (rows f))" by simp
    then obtain v where "?rk ir = Inr v" unfolding rk by auto
    then show "?rk ir = Inr (K ir)" by (simp add: K_def)
  qed
  have pu: "''page_url'' \<in> set ?cols"
  proof -
    from ne obtain ir where "ir \<in> set (rows f)" by (cases "rows f") auto
    with rkK have "record_key ?cols (snd ir) = Inr (K ir)" by blast
    from record_key_Inr [OF this] show ?thesis by blast
  qed
  have both: "get_description ?cols (snd ir) = Inr (D ir)
              \<and> dedup_key (snd ir ''page_url'') (Atom (AStr (take 20 (normalize (D ir))))) = Inr (K ir)"
    if "ir \<in> set (rows f)" for ir
  proof -
    from that rkK have "record_key ?cols (snd ir) = Inr (K ir)" by blast
    from record_key_Inr [OF this] obtain dd where
      "get_description ?cols (snd ir) = Inr dd"
      "dedup_key (snd ir ''page_url'') (Atom (AStr (take 20 (normalize dd)))) = Inr (K ir)"
      by blast
    then show ?thesis by (simp add: D_def)
  qed
  have gd: "\<forall>ir\<in>set (rows f). get_description ?cols (snd ir) = Inr (D ir)"
    using both by blast
  have ky: "\<forall>ir\<in>set (rows f).
              dedup_key (snd ir ''page_url'') (Atom (AStr (take 20 (normalize (D ir))))) = Inr (K ir)"
    using both by blast
  have u: "dedup f = merge_and_drop (derived_cols ?cols) (map h (rows f))"
    unfolding h_def using gd pu ky by (rule dedup_unfold)
  have keys: "map (\<lambda>ir. snd ir ''dedup_key'') (map h (rows f)) = map (\<lambda>k. Atom (AStr k)) ks"
    using Kk by (simp add: h_def with_derived_key comp_def)
  from groupby_distinct_keys [OF keys d]
  have one: "\<forall>kg\<in>set (groupby (map h (rows f))). length (snd kg) = 1"
    and ms: "mset (concat (map snd (groupby (map h (rows f))))) = mset (map h (rows f))"
    by blast+
  define p where "p = concat (map snd (groupby (map h (rows f))))"
  have "\<forall>kg\<in>set (groupby (map h (rows f))).
          merge_group (derived_cols ?cols) (snd kg) = Inr (snd (hd (snd kg)))"
    using one merge_group_single by blast
  then have sq: "sequence (map (\<lambda>kg. merge_group (derived_cols ?cols) (snd kg)) (groupby (map h (rows f))))
              = Inr (map (\<lambda>kg. snd (hd (snd kg))) (groupby (map h (rows f))))"
    by (rule sequence_map_Inr)
  have "\<forall>g\<in>set (map snd (groupby (map h (rows f)))). length g = 1"
    using one by simp
  then have "map hd (map snd (groupby (map h (rows f)))) = p"
    unfolding p_def by (rule singletons_hd)
  then have "map snd (map hd (map snd (groupby (map h (rows f))))) = map snd p" by simp
  then have dd: "map (\<lambda>kg. snd (hd (snd kg))) (groupby (map h (rows f))) = map snd p"
    by (simp add: comp_def)
  have msp: "mset p = mset (map h (rows f))" using ms by (simp add: p_def)
  have pne: "map snd p \<noteq> []"
  proof
    assume "map snd p = []"
    then have "mset p = {#}" by simp
    with msp ne show False by simp
  qed
  have fc: "filter (\<lambda>c. c \<notin> set temp_cols) (derived_cols ?cols) = ?cols"
    using ct by (simp add: filter_derived_cols disjoint_iff)
  define out where "out = \<lparr>columns = ?cols, rows = enumerate 0 (map snd p)\<rparr>"
  have o: "dedup f = Inr out"
    unfolding u merge_and_drop_def sq dd out_def using pne by (simp add: fc)
  have Rh: "R (snd (h ir)) = R (snd ir)" for ir
  proof -
    have "\<forall>c\<in>set ?cols. with_derived (snd ir) (D ir) (K ir) c = snd ir c"
      using ct with_derived_other by blast
    then show ?thesis by (simp add: R_def h_def)
  qed
  have e: "map snd (enumerate 0 (map snd p)) = map snd p" by (rule map_snd_enumerate)
  have "records_of out = map (\<lambda>ir. R (snd ir)) (enumerate 0 (map snd p))"
    by (simp add: records_of_def out_def R_def)
  also have "\<dots> = map R (map snd (enumerate 0 (map snd p)))"
    by (simp only: map_map comp_def)
  also have "\<dots> = map R (map snd p)" by (simp only: e)
  also have "\<dots> = map (\<lambda>ir. R (snd ir)) p" by (simp only: map_map comp_def)
  finally have "mset (records_of out) = image_mset (\<lambda>ir. R (snd ir)) (mset p)" by simp
  also have "\<dots> = image_mset (\<lambda>ir. R (snd ir)) (mset (map h (rows f)))" by (simp only: msp)
  also have "\<dots> = mset (map (\<lambda>ir. R (snd (h ir))) (rows f))"
    by (simp add: multiset.map_comp comp_def)
  also have "\<dots> = mset (map (\<lambda>ir. R (snd ir)) (rows f))" by (simp only: Rh)
  also have "\<dots> = mset (records_of f)" by (simp add: records_of_def R_def)
  finally have "mset (records_of out) = mset (records_of f)" .
  moreover have "columns out = ?cols" by (simp add: out_def)
  ultimately show ?thesis using o by blast
qed

section \<open>Key construction\<close>

text \<open>
  Claim C1. The key is the URL, then \<^verbatim>\<open>|||\<close>, then the first 20 characters of the
  normalized description, and the sentinel \<^verbatim>\<open>NO_DESC\<close> stands for the prefix of an
  empty normalized description. The code does not do the second part: the slice of an
  empty string is the empty string, which \<^verbatim>\<open>fillna\<close> does not replace. Record B of
  the second scenario gets the key that ends with the delimiter, not the one that ends
  with the sentinel.
\<close>

theorem C1_empty_description_key_has_no_sentinel:
  "record_key scenario2_cols scenario2_B = Inr (Atom (AStr ''http://a.com/p1|||''))
   \<and> record_key scenario2_cols scenario2_B \<noteq> Inr (Atom (AStr ''http://a.com/p1|||NO_DESC''))"
  by code_simp

section \<open>Emptiness\<close>

text \<open>
  Claim C6. A sequence is empty only when it has no element. The code departs from this:
  on a one-element array or list whose element is null, \<^verbatim>\<open>pd.isna\<close> answers with the
  one-element array \<^verbatim>\<open>[True]\<close>, whose truth value is \<^verbatim>\<open>True\<close>, so the value is
  classified empty.
\<close>

theorem C6_one_null_element_is_empty:
  "is_empty (PArray [ANone]) \<and> is_empty (PList [ANaN])"
  by code_simp

section \<open>Output schema\<close>

text \<open>
  Claim C7. Every field of the input is a field of the output. The code loses one: an input
  column named \<^verbatim>\<open>description\<close> is overwritten by the extracted description and then
  dropped with the derived columns, so the output record has the URL only.
\<close>

theorem C7_input_description_column_is_dropped:
  "dedup_records described_table = Inr [[(''page_url'', Atom (AStr ''http://a.com/p1''))]]"
  by code_simp

section \<open>Description extraction\<close>

text \<open>
  Claim C10. The description extracted from a record is the empty string, or it is the
  string cell of one of the record's candidate fields with the whitespace at its ends
  removed (the stripped value, not the raw one), and then it has no whitespace at either
  end and its length is at least 3. Normalizing a normalized description changes nothing.
\<close>

theorem C10_description_trimmed_normalize_idempotent:
  assumes "get_description cols row = Inr d"
  shows "(d = [] \<or>
          ((\<exists>f\<in>set candidate_fields. f \<in> set cols \<and> (\<exists>s. row f = Atom (AStr s) \<and> d = strip s))
           \<and> strip d = d \<and> 3 \<le> length d))
         \<and> normalize (normalize d) = normalize d"
proof -
  have g: "get_description_from candidate_fields cols row = Inr d"
    using assms by (simp add: get_description_def)
  from get_description_from_shape [OF g] get_description_from_source [OF g]
  show ?thesis by (auto simp: normalize_idem)
qed

theorem C10_witness:
  "get_description titled_cols titled_record = Inr ''Blue   Widget''
   \<and> titled_record ''product_title'' = Atom (AStr ''  Blue   Widget '')
   \<and> strip ''  Blue   Widget '' = ''Blue   Widget''
   \<and> strip ''Blue   Widget'' = ''Blue   Widget'' \<and> 3 \<le> length ''Blue   Widget''
   \<and> normalize (normalize ''Blue   Widget'') = normalize ''Blue   Widget''"
proof -
  have h: "get_description titled_cols titled_record = Inr ''Blue   Widget''"
    by code_simp
  have t: "titled_record ''product_title'' = Atom (AStr ''  Blue   Widget '')"
    by code_simp
  have s: "strip ''  Blue   Widget '' = ''Blue   Widget''"
    by code_simp
  from C10_description_trimmed_normalize_idempotent [OF h] show ?thesis
    using h t s by simp
qed

text \<open>
  Claim C8, as amended. For a record whose candidate cells all have a truth value (none is
  an array of two or more elements), extraction returns the value of the first candidate
  field, in the order summary, description, title, name, that the record has and whose
  cell is a string of trimmed length at least 3, with the whitespace at its ends removed;
  it returns the empty string when there is no such field. A candidate field that the
  record does not have is passed over.
\<close>

theorem C8_returns_first_qualifying_trimmed:
  assumes "\<forall>f\<in>set candidate_fields. f \<in> set cols \<longrightarrow> has_truth (row f)"
  shows "get_description cols row =
           Inr (case first_qualifying cols row of
                  None \<Rightarrow> [] | Some f \<Rightarrow> strip (str_of (row f)))"
  using get_description_from_find [OF assms]
  by (simp add: get_description_def first_qualifying_def)

theorem C8_witness:
  "first_qualifying titled_cols titled_record = Some ''product_title''
   \<and> get_description titled_cols titled_record = Inr ''Blue   Widget''"
proof -
  have h: "\<forall>f\<in>set candidate_fields. f \<in> set titled_cols \<longrightarrow> has_truth (titled_record f)"
    by code_simp
  have q: "first_qualifying titled_cols titled_record = Some ''product_title''"
    by code_simp
  have s: "strip (str_of (titled_record ''product_title'')) = ''Blue   Widget''"
    by code_simp
  from C8_returns_first_qualifying_trimmed [OF h] show ?thesis
    using h q s by simp
qed

text \<open>
  The claim as it was stated has extraction return the candidate value itself. On a record
  whose title is padded with whitespace the code returns the stripped title, which is not
  that value.
\<close>

theorem C8_counterexample:
  "get_description titled_cols titled_record \<noteq> Inr (spec_description titled_cols titled_record)"
  by code_simp

section \<open>Key derivation\<close>

text \<open>
  Claim C9, as amended. For two records whose URL cells are strings and whose candidate
  cells all have a truth value, a key is computed for each; identical URLs and identical
  20-character normalized-description prefixes give the same key; and, when neither URL
  contains the character \<^verbatim>\<open>|\<close>, the same key gives identical URLs and identical
  prefixes.
\<close>

theorem C9_key_total_and_exact_without_bar:
  assumes cols: "''page_url'' \<in> set cols"
    and u1: "row1 ''page_url'' = Atom (AStr u1)"
    and u2: "row2 ''page_url'' = Atom (AStr u2)"
    and t1: "\<forall>f\<in>set candidate_fields. f \<in> set cols \<longrightarrow> has_truth (row1 f)"
    and t2: "\<forall>f\<in>set candidate_fields. f \<in> set cols \<longrightarrow> has_truth (row2 f)"
  shows "(\<exists>k. record_key cols row1 = Inr (Atom (AStr k)))
       \<and> (\<exists>k. record_key cols row2 = Inr (Atom (AStr k)))
       \<and> (u1 = u2 \<and> record_prefix cols row1 = record_prefix cols row2
            \<longrightarrow> record_key cols row1 = record_key cols row2)
       \<and> (CHR ''|'' \<notin> set u1 \<and> CHR ''|'' \<notin> set u2
            \<and> record_key cols row1 = record_key cols row2
            \<longrightarrow> u1 = u2 \<and> record_prefix cols row1 = record_prefix cols row2)"
proof -
  from get_description_total [OF t1] obtain d1 where d1: "get_description cols row1 = Inr d1" ..
  from get_description_total [OF t2] obtain d2 where d2: "get_description cols row2 = Inr d2" ..
  have k1: "record_key cols row1 = Inr (Atom (AStr (u1 @ ''|||'' @ take 20 (normalize d1))))"
    using cols u1 d1 by (rule record_key_str)
  have k2: "record_key cols row2 = Inr (Atom (AStr (u2 @ ''|||'' @ take 20 (normalize d2))))"
    using cols u2 d2 by (rule record_key_str)
  have p1: "record_prefix cols row1 = Inr (take 20 (normalize d1))"
    using d1 by (simp add: record_prefix_def)
  have p2: "record_prefix cols row2 = Inr (take 20 (normalize d2))"
    using d2 by (simp add: record_prefix_def)
  have fwd: "u1 = u2 \<and> record_prefix cols row1 = record_prefix cols row2
               \<longrightarrow> record_key cols row1 = record_key cols row2"
    by (simp add: k1 k2 p1 p2)
  have bwd: "CHR ''|'' \<notin> set u1 \<and> CHR ''|'' \<notin> set u2
               \<and> record_key cols row1 = record_key cols row2
               \<longrightarrow> u1 = u2 \<and> record_prefix cols row1 = record_prefix cols row2"
  proof (intro impI, elim conjE)
    assume n1: "CHR ''|'' \<notin> set u1" and n2: "CHR ''|'' \<notin> set u2"
      and "record_key cols row1 = record_key cols row2"
    then have "u1 @ ''|||'' @ take 20 (normalize d1) = u2 @ ''|||'' @ take 20 (normalize d2)"
      by (simp only: k1 k2 sum.inject pyval.inject atom.inject)
    from key_split [OF n1 n2 this] show "u1 = u2 \<and> record_prefix cols row1 = record_prefix cols row2"
      by (simp add: p1 p2)
  qed
  from k1 k2 fwd bwd show ?thesis by blast
qed

theorem C9_witness:
  "record_key titled_cols titled_record = Inr (Atom (AStr ''http://a.com/p1|||blue widget''))
   \<and> record_key titled_cols retitled_record = Inr (Atom (AStr ''http://a.com/p1|||blue widget''))
   \<and> record_prefix titled_cols titled_record = Inr ''blue widget''
   \<and> record_prefix titled_cols retitled_record = Inr ''blue widget''"
proof -
  have c: "''page_url'' \<in> set titled_cols" by code_simp
  have u1: "titled_record ''page_url'' = Atom (AStr ''http://a.com/p1'')" by code_simp
  have u2: "retitled_record ''page_url'' = Atom (AStr ''http://a.com/p1'')" by code_simp
  have t1: "\<forall>f\<in>set candidate_fields. f \<in> set titled_cols \<longrightarrow> has_truth (titled_record f)"
    by code_simp
  have t2: "\<forall>f\<in>set candidate_fields. f \<in> set titled_cols \<longrightarrow> has_truth (retitled_record f)"
    by code_simp
  have p1: "record_prefix titled_cols titled_record = Inr ''blue widget''" by code_simp
  have p2: "record_prefix titled_cols retitled_record = Inr ''blue widget''" by code_simp
  have k1: "record_key titled_cols titled_record = Inr (Atom (AStr ''http://a.com/p1|||blue widget''))"
    by code_simp
  from C9_key_total_and_exact_without_bar [OF c u1 u2 t1 t2]
  have "record_key titled_cols titled_record = record_key titled_cols retitled_record"
    using p1 p2 by simp
  with k1 p1 p2 show ?thesis by simp
qed

text \<open>
  The claim as it was stated fails in both parts. The key is a plain concatenation, so
  the URL \<^verbatim>\<open>a\<close> with the description \<^verbatim>\<open>|||bcd\<close> and the URL \<^verbatim>\<open>a|||\<close>
  with the description \<^verbatim>\<open>bcd\<close> give one key; and a record whose URL is null has a
  null key, not a key.
\<close>

theorem C9_counterexample:
  "record_key summary_cols short_url_record = record_key summary_cols long_url_record
   \<and> short_url_record ''page_url'' \<noteq> long_url_record ''page_url''
   \<and> record_key summary_cols null_url_record = Inr (Atom ANaN)"
  by code_simp

section \<open>Merging a group\<close>

text \<open>
  Claim C2. For a group of more than one record (with distinct index labels),
  \<^verbatim>\<open>merge_group\<close> returns the record that the specification describes: the base is
  the first record in group order whose count of non-empty original fields is the highest
  (no record has a higher count, and every record before the base has a strictly lower
  one); starting from the base, every other record in group order and every original field
  is visited, and a value is copied only into a field that is empty in the working copy
  from a field that is not empty in the other record. A field that is not empty in the base
  keeps the base's value.
\<close>

theorem C2_merge_group_is_base_then_fill:
  assumes "distinct (map fst g)" and "1 < length g"
  shows "merge_group cols g = Inr (spec_merge cols (map snd g))
       \<and> spec_base_pos cols (map snd g) < length g
       \<and> (\<forall>r\<in>set (map snd g).
             count_nonempty cols r
               \<le> count_nonempty cols (map snd g ! spec_base_pos cols (map snd g)))
       \<and> (\<forall>i<spec_base_pos cols (map snd g).
             count_nonempty cols (map snd g ! i)
               < count_nonempty cols (map snd g ! spec_base_pos cols (map snd g)))
       \<and> (\<forall>col. \<not> is_empty ((map snd g ! spec_base_pos cols (map snd g)) col)
             \<longrightarrow> spec_merge cols (map snd g) col
                   = (map snd g ! spec_base_pos cols (map snd g)) col)"
proof -
  have ne: "map snd g \<noteq> []" using assms(2) by auto
  have "merge_group cols g = Inr (spec_merge cols (map snd g))"
    using assms by (rule merge_group_spec)
  moreover have "spec_base_pos cols (map snd g) < length g"
    using spec_base_pos_less [OF ne, of cols] by simp
  moreover have "\<forall>r\<in>set (map snd g).
             count_nonempty cols r
               \<le> count_nonempty cols (map snd g ! spec_base_pos cols (map snd g))"
    using spec_base_is_max by blast
  moreover have "\<forall>i<spec_base_pos cols (map snd g).
             count_nonempty cols (map snd g ! i)
               < count_nonempty cols (map snd g ! spec_base_pos cols (map snd g))"
    using spec_base_before by blast
  moreover have "\<forall>col. \<not> is_empty ((map snd g ! spec_base_pos cols (map snd g)) col)
             \<longrightarrow> spec_merge cols (map snd g) col
                   = (map snd g ! spec_base_pos cols (map snd g)) col"
    using spec_merge_keeps_base by blast
  ultimately show ?thesis by blast
qed

theorem C2_witness:
  "spec_base_pos widget_cols (map snd widget_group) = 0
   \<and> merged_cells widget_cols widget_group =
       Inr [str ''http://a.com/p1'', str ''Acme'', str ''red'', str ''L'', str ''1kg'', str [],
            str [], str [], str ''http://a.com/p1|||'']"
proof -
  have d: "distinct (map fst widget_group)" by code_simp
  have n: "1 < length widget_group" by code_simp
  have b: "spec_base_pos widget_cols (map snd widget_group) = 0" by code_simp
  have v: "map (spec_merge widget_cols (map snd widget_group)) widget_cols =
             [str ''http://a.com/p1'', str ''Acme'', str ''red'', str ''L'', str ''1kg'', str [],
              str [], str [], str ''http://a.com/p1|||'']"
    by code_simp
  from C2_merge_group_is_base_then_fill [OF d n, of widget_cols]
  have "merge_group widget_cols widget_group = Inr (spec_merge widget_cols (map snd widget_group))"
    by blast
  then show ?thesis using b v by (simp add: merged_cells_def)
qed

text \<open>
  Claim C5. For a group of more than one record (with distinct index labels), the merge
  returns a record whose count of non-empty original fields is at least the count of every
  record of the group, so at least their maximum.
\<close>

theorem C5_merged_count_at_least_every_record:
  assumes "distinct (map fst g)" and "1 < length g"
  shows "\<exists>m. merge_group cols g = Inr m
           \<and> (\<forall>ir\<in>set g. count_nonempty cols (snd ir) \<le> count_nonempty cols m)"
proof -
  have m: "merge_group cols g = Inr (spec_merge cols (map snd g))"
    using assms by (rule merge_group_spec)
  have "count_nonempty cols (snd ir) \<le> count_nonempty cols (spec_merge cols (map snd g))"
    if "ir \<in> set g" for ir
  proof -
    have "snd ir \<in> set (map snd g)" using that by simp
    then have "count_nonempty cols (snd ir)
                 \<le> count_nonempty cols (map snd g ! spec_base_pos cols (map snd g))"
      by (rule spec_base_is_max)
    also have "\<dots> \<le> count_nonempty cols (spec_merge cols (map snd g))"
      by (rule spec_merge_count)
    finally show ?thesis .
  qed
  with m show ?thesis by blast
qed

theorem C5_witness:
  "merged_count widget_cols widget_group = Inr 5
   \<and> map (count_nonempty widget_cols) (map snd widget_group) = [3, 2, 3]"
proof -
  have d: "distinct (map fst widget_group)" by code_simp
  have n: "1 < length widget_group" by code_simp
  have c: "merged_count widget_cols widget_group = Inr 5" by code_simp
  have cs: "map (count_nonempty widget_cols) (map snd widget_group) = [3, 2, 3]" by code_simp
  from C5_merged_count_at_least_every_record [OF d n, of widget_cols]
  obtain m where "merge_group widget_cols widget_group = Inr m"
    and "\<forall>ir\<in>set widget_group. count_nonempty widget_cols (snd ir) \<le> count_nonempty widget_cols m"
    by blast
  then have "merged_count widget_cols widget_group = Inr (count_nonempty widget_cols m)"
    by (simp add: merged_count_def)
  with c cs show ?thesis by simp
qed

section \<open>Records without a URL\<close>




section \<open>Running the transform on its own output\<close>

text \<open>
  Claim C4, as amended. Whenever the keys derived again from the records of the output
  are strings that are pairwise distinct, running the transform on its own output succeeds
  and yields the same records (as a multiset) as the first run.
\<close>

theorem C4_same_records_when_output_keys_distinct:
  assumes "output_keys df = Inr (map str ks)" and "distinct ks"
  shows "\<exists>rs. dedup_records df = Inr rs
           \<and> (\<exists>rs2. dedup_twice_records df = Inr rs2 \<and> mset rs2 = mset rs)"
proof -
  from assms(1) obtain out where o: "dedup df = Inr out"
    and fk: "frame_keys out = Inr (map str ks)"
    by (auto simp: output_keys_def split: sum.splits)
  from dedup_Inr_shape [OF o] have ct: "set (columns out) \<inter> set temp_cols = {}"
    and ne: "rows out \<noteq> []" by blast+
  have fk': "frame_keys out = Inr (map (\<lambda>k. Atom (AStr k)) ks)"
  proof -
    have "str = (\<lambda>k. Atom (AStr k))" by (rule ext) (simp add: str_def)
    with fk show ?thesis by simp
  qed
  from dedup_distinct_keys [OF ct fk' assms(2) ne] obtain out2 where
    o2: "dedup out = Inr out2" and ms: "mset (records_of out2) = mset (records_of out)"
    by blast
  have "dedup_records df = Inr (records_of out)" using o by (simp add: dedup_records_def)
  moreover have "dedup_twice_records df = Inr (records_of out2)"
    using o o2 by (simp add: dedup_twice_records_def dedup_records_def)
  ultimately show ?thesis using ms by blast
qed

theorem C4_witness:
  "output_keys scenario_table = Inr (map str [''http://a.com/p1|||blue widget'', ''http://a.com/p2|||red widget''])
   \<and> dedup_records scenario_table =
       Inr [[(''page_url'', str ''http://a.com/p1''), (''product_name'', str ''blue   widget''),
             (''brand'', str ''Acme'')],
            [(''page_url'', str ''http://a.com/p2''), (''product_name'', str ''Red widget''),
             (''brand'', str ''Bolt'')]]
   \<and> dedup_twice_records scenario_table = dedup_records scenario_table"
proof -
  have k: "output_keys scenario_table =
             Inr (map str [''http://a.com/p1|||blue widget'', ''http://a.com/p2|||red widget''])"
    by code_simp
  have d: "distinct [''http://a.com/p1|||blue widget'', ''http://a.com/p2|||red widget'']"
    by code_simp
  have r: "dedup_records scenario_table =
       Inr [[(''page_url'', str ''http://a.com/p1''), (''product_name'', str ''blue   widget''),
             (''brand'', str ''Acme'')],
            [(''page_url'', str ''http://a.com/p2''), (''product_name'', str ''Red widget''),
             (''brand'', str ''Bolt'')]]"
    by code_simp
  have t: "dedup_twice_records scenario_table = dedup_records scenario_table"
    by code_simp
  from C4_same_records_when_output_keys_distinct [OF k d]
  have "\<exists>rs. dedup_records scenario_table = Inr rs
           \<and> (\<exists>rs2. dedup_twice_records scenario_table = Inr rs2 \<and> mset rs2 = mset rs)" .
  with k r t show ?thesis by blast
qed

text \<open>
  The claim as it was stated has the output records always carry distinct keys. Merging can
  fill a candidate field of higher priority than the one the key came from, which changes
  the description of the merged record and so its key. On the table below the first run
  gives two records that share a key, and the second run merges them into one.
\<close>

theorem C4_counterexample:
  "dedup_records remerge_table =
     Inr [[(''page_url'', str ''http://a.com/p1''), (''product_summary'', str []),
           (''product_title'', str ''totally different''), (''product_name'', str [])],
          [(''page_url'', str ''http://a.com/p1''), (''product_summary'', str ''xy''),
           (''product_title'', str ''totally different''), (''product_name'', str ''widget one'')]]
   \<and> dedup_twice_records remerge_table =
     Inr [[(''page_url'', str ''http://a.com/p1''), (''product_summary'', str ''xy''),
           (''product_title'', str ''totally different''), (''product_name'', str ''widget one'')]]"
  by code_simp

end
